theory Spec2Isabelle
  imports Main
begin

section \<open>Android unlock patterns on the 3x3 grid\<close>

text \<open>
  The grid is numbered row by row:
  \<^verbatim>\<open>
     0 1 2
     3 4 5
     6 7 8
  \<close>
  Dots are Python integers (\<^typ>\<open>int\<close>), a pattern is a list of dots. A Python
  function that falls off its last \<^verbatim>\<open>if\<close> without reaching a \<^verbatim>\<open>return\<close> returns the
  value \<^verbatim>\<open>None\<close>: the lookup functions below therefore return an \<^typ>\<open>'a option\<close>,
  where \<^term>\<open>None\<close> is that returned value (it is not an exception). Exceptions are
  values of the type \<open>error\<close>, carried in the left summand of a result.
\<close>

subsection \<open>Grid topology\<close>

datatype error = IndexError | TypeError | ValueError

definition getAdjacent :: "int \<Rightarrow> int list option" where
  "getAdjacent dot =
     (if dot = 0 then Some [1, 3, 4]
      else if dot = 1 then Some [0, 2, 4, 3, 5]
      else if dot = 2 then Some [1, 5, 4]
      else if dot = 3 then Some [0, 6, 4, 1, 7]
      else if dot = 4 then Some [1, 3, 5, 7, 0, 3, 6, 8]
      else if dot = 5 then Some [2, 8, 4, 7, 1]
      else if dot = 6 then Some [3, 7, 4]
      else if dot = 7 then Some [6, 8, 4, 3, 5]
      else if dot = 8 then Some [7, 5, 4]
      else None)"

definition getLinear :: "int \<Rightarrow> int list option" where
  "getLinear dot =
     (if dot = 0 then Some [1, 3, 4, 2, 6, 8]
      else if dot = 1 then Some [4, 7]
      else if dot = 2 then Some [1, 4, 5, 0, 6, 8]
      else if dot = 3 then Some [4, 5]
      else if dot = 4 then Some []
      else if dot = 5 then Some [4, 3]
      else if dot = 6 then Some [3, 4, 7, 0, 2, 8]
      else if dot = 7 then Some [4, 1]
      else if dot = 8 then Some [7, 5, 4, 6, 2, 0]
      else None)"

definition getEndLinear :: "int \<Rightarrow> int list option" where
  "getEndLinear dot =
     (if dot = 0 then Some [2, 6, 8]
      else if dot = 1 then Some [7]
      else if dot = 2 then Some [0, 8, 6]
      else if dot = 3 then Some [5]
      else if dot = 4 then Some []
      else if dot = 5 then Some [3]
      else if dot = 6 then Some [0, 8, 2]
      else if dot = 7 then Some [1]
      else if dot = 8 then Some [6, 2, 0]
      else None)"

definition getMiddle :: "int \<Rightarrow> int \<Rightarrow> int option" where
  "getMiddle dot1 dot2 =
     (let lower = min dot1 dot2; higher = max dot1 dot2 in
      if lower = 0 \<and> higher = 2 then Some 1
      else if lower = 0 \<and> higher = 6 then Some 3
      else if lower = 0 \<and> higher = 8 then Some 4
      else if lower = 1 \<and> higher = 7 then Some 4
      else if lower = 2 \<and> higher = 6 then Some 4
      else if lower = 2 \<and> higher = 8 then Some 5
      else if lower = 3 \<and> higher = 5 then Some 4
      else if lower = 6 \<and> higher = 8 then Some 7
      else None)"

subsection \<open>The legal-move rule\<close>

text \<open>
  \<^verbatim>\<open>next in currentPattern\<close>: the second argument is a dot or the value \<^verbatim>\<open>None\<close> that
  \<open>getMiddle\<close> may have returned; \<^verbatim>\<open>None\<close> is never an element of a list of integers.
\<close>

definition isAlreadyVisited :: "int list \<Rightarrow> int option \<Rightarrow> bool" where
  "isAlreadyVisited currentPattern nxt =
     (case nxt of None \<Rightarrow> False | Some d \<Rightarrow> d \<in> set currentPattern)"

text \<open>
  \<^verbatim>\<open>currentPattern[len(currentPattern)-1]\<close>: on the empty list the index is \<open>-1\<close>, which
  Python rejects with IndexError.
\<close>

definition getLast :: "int list \<Rightarrow> error + int" where
  "getLast currentPattern =
     (if currentPattern = [] then Inl IndexError else Inr (last currentPattern))"

text \<open>\<^verbatim>\<open>dot in xs\<close> where \<open>xs\<close> is the result of a lookup: \<^verbatim>\<open>None\<close> is not iterable.\<close>

definition dotIn :: "int \<Rightarrow> int list option \<Rightarrow> error + bool" where
  "dotIn dot xs = (case xs of None \<Rightarrow> Inl TypeError | Some ys \<Rightarrow> Inr (dot \<in> set ys))"

text \<open>\<^verbatim>\<open>list.remove(x)\<close> deletes the first occurrence and raises ValueError when there is none.\<close>

definition listRemove :: "int list \<Rightarrow> int \<Rightarrow> error + int list" where
  "listRemove xs x = (if x \<in> set xs then Inr (remove1 x xs) else Inl ValueError)"

definition allDots :: "int list" where
  "allDots = [0, 1, 2, 3, 4, 5, 6, 7, 8]"

text \<open>One pass of the body of the \<^verbatim>\<open>for dot in allDots\<close> loop, on the candidate list so far.\<close>

definition checkDot :: "int list \<Rightarrow> int \<Rightarrow> int list \<Rightarrow> error + int list" where
  "checkDot currentPattern dot candidateDots =
     (if isAlreadyVisited currentPattern (Some dot) then listRemove candidateDots dot
      else
        (case getLast currentPattern of Inl e \<Rightarrow> Inl e | Inr l1 \<Rightarrow>
        (case dotIn dot (getAdjacent l1) of Inl e \<Rightarrow> Inl e | Inr adj \<Rightarrow>
        (if adj then Inr candidateDots
         else
          (case getLast currentPattern of Inl e \<Rightarrow> Inl e | Inr l2 \<Rightarrow>
          (case dotIn dot (getEndLinear l2) of Inl e \<Rightarrow> Inl e | Inr lin \<Rightarrow>
          (if lin then
            (case getLast currentPattern of Inl e \<Rightarrow> Inl e | Inr l3 \<Rightarrow>
            (let intersect = getMiddle dot l3 in
             if isAlreadyVisited currentPattern intersect then Inr candidateDots
             else listRemove candidateDots dot))
           else Inr candidateDots)))))))"

fun checkDots :: "int list \<Rightarrow> int list \<Rightarrow> int list \<Rightarrow> error + int list" where
  "checkDots currentPattern [] candidateDots = Inr candidateDots"
| "checkDots currentPattern (dot # dots) candidateDots =
     (case checkDot currentPattern dot candidateDots of
        Inl e \<Rightarrow> Inl e
      | Inr candidateDots' \<Rightarrow> checkDots currentPattern dots candidateDots')"

definition getAllowedNextDots :: "int list \<Rightarrow> error + int list" where
  "getAllowedNextDots currentPattern = checkDots currentPattern allDots allDots"

subsection \<open>The enumerator\<close>

definition getNextOptions :: "int list \<Rightarrow> error + int list list" where
  "getNextOptions currentPattern =
     (case getAllowedNextDots currentPattern of
        Inl e \<Rightarrow> Inl e
      | Inr x \<Rightarrow> Inr (map (\<lambda>i. currentPattern @ [i]) x))"

text \<open>
  The variable \<^verbatim>\<open>currentPattern\<close> of \<^verbatim>\<open>recursivelyEvaluate\<close> holds a single pattern (the
  copy of \<^verbatim>\<open>lstStart\<close>) before the first round of the loop and a list of patterns after
  it; the function returns whatever the variable holds when the loop is over.
\<close>

datatype evaluated = Single "int list" | Many "int list list"

text \<open>The inner \<^verbatim>\<open>for branch in currentPattern: nextOpts.extend(getNextOptions(branch))\<close>.\<close>

fun extendBranches :: "int list list \<Rightarrow> error + int list list" where
  "extendBranches [] = Inr []"
| "extendBranches (branch # branches) =
     (case getNextOptions branch of
        Inl e \<Rightarrow> Inl e
      | Inr opts \<Rightarrow>
          (case extendBranches branches of
             Inl e \<Rightarrow> Inl e
           | Inr nextOpts \<Rightarrow> Inr (opts @ nextOpts)))"

text \<open>
  One round of the outer loop. Round \<open>0\<close> hands the variable to \<open>getNextOptions\<close> as a
  pattern, every later round iterates over it as a list of patterns. The two remaining
  combinations never arise (the variable is \<open>Single\<close> exactly in round \<open>0\<close>); Python
  would raise TypeError in both, on \<^verbatim>\<open>dot in None\<close> and on \<^verbatim>\<open>next in\<close> an integer, unless
  the list is empty, where the index \<open>-1\<close> is an IndexError in round \<open>0\<close> and the loop over
  no branches leaves an empty list later.
\<close>

definition evalRound :: "nat \<Rightarrow> evaluated \<Rightarrow> error + evaluated" where
  "evalRound i currentPattern =
     (if i = 0 then
        (case currentPattern of
           Single p \<Rightarrow>
             (case getNextOptions p of Inl e \<Rightarrow> Inl e | Inr nextOpts \<Rightarrow> Inr (Many nextOpts))
         | Many ps \<Rightarrow> if ps = [] then Inl IndexError else Inl TypeError)
      else
        (case currentPattern of
           Many ps \<Rightarrow>
             (case extendBranches ps of Inl e \<Rightarrow> Inl e | Inr nextOpts \<Rightarrow> Inr (Many nextOpts))
         | Single p \<Rightarrow> if p = [] then Inr (Many []) else Inl TypeError))"

text \<open>\<^verbatim>\<open>for i in range(iterationsToDo)\<close>, from round \<open>i\<close> on, with \<open>n\<close> rounds left.\<close>

fun evalRounds :: "nat \<Rightarrow> nat \<Rightarrow> evaluated \<Rightarrow> error + evaluated" where
  "evalRounds i 0 currentPattern = Inr currentPattern"
| "evalRounds i (Suc n) currentPattern =
     (case evalRound i currentPattern of
        Inl e \<Rightarrow> Inl e
      | Inr nextOpts \<Rightarrow> evalRounds (Suc i) n nextOpts)"

text \<open>\<^verbatim>\<open>range(k)\<close> is empty for \<open>k \<le> 0\<close>, hence \<^term>\<open>nat\<close> of the difference.\<close>

definition recursivelyEvaluate :: "int \<Rightarrow> int \<Rightarrow> error + evaluated" where
  "recursivelyEvaluate patternStart targetLength =
     (let lstStart = [patternStart];
          currentLength = int (length lstStart);
          currentPattern = Single lstStart;
          iterationsToDo = targetLength - currentLength
      in evalRounds 0 (nat iterationsToDo) currentPattern)"

text \<open>
  \<^verbatim>\<open>allPatterns.extend(thisSet)\<close> appends the elements of \<^verbatim>\<open>thisSet\<close>: dots when it is a
  single pattern, patterns when it is a list of patterns.
\<close>

datatype item = Dot int | Pat "int list"

fun elements :: "evaluated \<Rightarrow> item list" where
  "elements (Single p) = map Dot p"
| "elements (Many ps) = map Pat ps"

fun findAllPatternsFrom :: "int list \<Rightarrow> int \<Rightarrow> error + item list" where
  "findAllPatternsFrom [] targetLength = Inr []"
| "findAllPatternsFrom (i # starts) targetLength =
     (case recursivelyEvaluate i targetLength of
        Inl e \<Rightarrow> Inl e
      | Inr thisSet \<Rightarrow>
          (case findAllPatternsFrom starts targetLength of
             Inl e \<Rightarrow> Inl e
           | Inr allPatterns \<Rightarrow> Inr (elements thisSet @ allPatterns)))"

definition findAllPatterns :: "int \<Rightarrow> error + item list" where
  "findAllPatterns targetLength = findAllPatternsFrom [0..8] targetLength"

fun findAllCombinationsFrom :: "int list \<Rightarrow> error + item list" where
  "findAllCombinationsFrom [] = Inr []"
| "findAllCombinationsFrom (i # lengths) =
     (case findAllPatterns i of
        Inl e \<Rightarrow> Inl e
      | Inr thisSet \<Rightarrow>
          (case findAllCombinationsFrom lengths of
             Inl e \<Rightarrow> Inl e
           | Inr allPatterns \<Rightarrow> Inr (thisSet @ allPatterns)))"

definition findAllCombinations :: "int \<Rightarrow> error + item list" where
  "findAllCombinations maxLength = findAllCombinationsFrom [4..maxLength]"

section \<open>Notions used to state and prove the properties\<close>

text \<open>
  The decision the loop body takes for one dot, as a predicate: the dot stays among the
  candidates. The three tests come in the order of the source; the adjacency test has no
  effect on the outcome, because a dot that fails it and is not far-collinear stays as well.
\<close>

definition eligible :: "int list \<Rightarrow> int \<Rightarrow> bool" where
  "eligible p d =
     (if d \<in> set p then False
      else case getEndLinear (last p) of
             None \<Rightarrow> True
           | Some lin \<Rightarrow> if d \<in> set lin then isAlreadyVisited p (getMiddle d (last p)) else True)"

text \<open>The patterns \<open>getNextOptions\<close> returns, and one round over a list of branches.\<close>

definition extendPattern :: "int list \<Rightarrow> int list list" where
  "extendPattern p = map (\<lambda>i. p @ [i]) (filter (eligible p) allDots)"

definition expand :: "int list list \<Rightarrow> int list list" where
  "expand ps = concat (map extendPattern ps)"

text \<open>Patterns on which the legal-move rule raises no exception.\<close>

definition usable :: "int list \<Rightarrow> bool" where
  "usable p = (p \<noteq> [] \<and> last p \<in> set allDots)"

text \<open>What \<open>recursivelyEvaluate\<close> returns for a start on the grid.\<close>

definition patternsOfLength :: "int \<Rightarrow> int \<Rightarrow> evaluated" where
  "patternsOfLength s L = (if L \<le> 1 then Single [s] else Many ((expand ^^ nat (L - 1)) [[s]]))"

text \<open>\<open>validFrom pre ds\<close>: the dots \<open>ds\<close> can be appended to \<open>pre\<close> one after the other.\<close>

fun validFrom :: "int list \<Rightarrow> int list \<Rightarrow> bool" where
  "validFrom pre [] = True"
| "validFrom pre (d # ds) = (d \<in> set allDots \<and> eligible pre d \<and> validFrom (pre @ [d]) ds)"

text \<open>
  A step from \<open>a\<close> to \<open>b\<close> after the dots \<open>earlier\<close> (which end with \<open>a\<close>): adjacent, or
  far-collinear over a visited middle, or in neither table of \<open>a\<close>.
\<close>

definition legalMove :: "int list \<Rightarrow> int \<Rightarrow> int \<Rightarrow> bool" where
  "legalMove earlier a b =
     (case (getAdjacent a, getEndLinear a) of
        (Some adj, Some lin) \<Rightarrow>
          b \<in> set adj \<or>
          (b \<in> set lin \<and> isAlreadyVisited earlier (getMiddle a b)) \<or>
          (b \<notin> set adj \<and> b \<notin> set lin)
      | _ \<Rightarrow> False)"

text \<open>
  The symmetries of the square grid, as relabelings of the dots. The dot \<open>d\<close> sits in row
  \<open>d div 3\<close> and column \<open>d mod 3\<close>; \<open>rotate\<close> is the quarter turn that sends row \<open>r\<close>, column
  \<open>c\<close> to row \<open>c\<close>, column \<open>2 - r\<close>, and \<open>mirror\<close> swaps the left and the right column. The
  eight symmetries are the four turns, each alone and after the mirror.
\<close>

definition rotate :: "int \<Rightarrow> int" where
  "rotate d = 3 * (d mod 3) + (2 - d div 3)"

definition mirror :: "int \<Rightarrow> int" where
  "mirror d = 3 * (d div 3) + (2 - d mod 3)"

definition dihedral :: "(int \<Rightarrow> int) list" where
  "dihedral =
     [id, rotate, rotate \<circ> rotate, rotate \<circ> rotate \<circ> rotate,
      mirror, rotate \<circ> mirror, rotate \<circ> rotate \<circ> mirror, rotate \<circ> rotate \<circ> rotate \<circ> mirror]"

text \<open>A relabeling applied to an element of the result of \<open>findAllPatterns\<close>.\<close>

fun relabel :: "(int \<Rightarrow> int) \<Rightarrow> item \<Rightarrow> item" where
  "relabel f (Dot d) = Dot (f d)"
| "relabel f (Pat p) = Pat (map f p)"

text \<open>
  What a relabeling has to respect for the legal-move rule to be invariant under it: it
  permutes the grid, and it maps far-collinear pairs to far-collinear pairs and their
  middles to the middles. (\<open>farOf\<close> is \<open>getEndLinear\<close> with \<^verbatim>\<open>None\<close> read as no dot.)
\<close>

definition farOf :: "int \<Rightarrow> int list" where
  "farOf l = (case getEndLinear l of None \<Rightarrow> [] | Some lin \<Rightarrow> lin)"

definition gridSymmetry :: "(int \<Rightarrow> int) \<Rightarrow> bool" where
  "gridSymmetry f =
     ((\<forall>d\<in>set allDots. f d \<in> set allDots) \<and>
      inj_on f (set allDots) \<and>
      (\<forall>l\<in>set allDots. \<forall>d\<in>set allDots.
         (f d \<in> set (farOf (f l)) \<longleftrightarrow> d \<in> set (farOf l)) \<and>
         (d \<in> set (farOf l) \<longrightarrow> getMiddle (f d) (f l) = map_option f (getMiddle d l))))"

section \<open>The legal-move rule as a filter\<close>

lemmas topology_defs =
  getAdjacent_def getEndLinear_def getMiddle_def isAlreadyVisited_def getLast_def
  dotIn_def listRemove_def allDots_def checkDot_def getAllowedNextDots_def

text \<open>
  Claim C4: on the pattern \<open>[0, 3, 6]\<close> the legal-move rule returns, as a set, exactly the
  dots \<open>1, 4, 5, 7\<close>, and so none of \<open>0, 2, 3, 6, 8\<close>.
\<close>

theorem allowed_after_036:
  "getAllowedNextDots [0, 3, 6] = Inr [1, 4, 5, 7] \<and>
   set [1, 4, 5, 7 :: int] \<inter> {0, 2, 3, 6, 8} = {}"
  by (simp add: topology_defs)

lemma onGrid_cases:
  "l \<in> set allDots \<Longrightarrow> l = 0 \<or> l = 1 \<or> l = 2 \<or> l = 3 \<or> l = 4 \<or> l = 5 \<or> l = 6 \<or> l = 7 \<or> l = 8"
  by (simp add: allDots_def)

lemma adjacent_not_far:
  assumes "l \<in> set allDots"
  shows "\<exists>adj lin. getAdjacent l = Some adj \<and> getEndLinear l = Some lin \<and> set adj \<inter> set lin = {}"
  using onGrid_cases[OF assms] by (elim disjE) (simp_all add: getAdjacent_def getEndLinear_def)

lemma checkDot_eligible:
  assumes "p \<noteq> []" "last p \<in> set allDots" "d \<in> set cands"
  shows "checkDot p d cands = Inr (if eligible p d then cands else remove1 d cands)"
proof -
  obtain adj lin where al: "getAdjacent (last p) = Some adj" "getEndLinear (last p) = Some lin"
    "set adj \<inter> set lin = {}"
    using adjacent_not_far[OF assms(2)] by blast
  show ?thesis
    using assms(1,3) al
    by (auto simp: checkDot_def eligible_def isAlreadyVisited_def getLast_def dotIn_def listRemove_def Let_def)
qed

lemma checkDots_filter:
  assumes "p \<noteq> []" "last p \<in> set allDots"
  shows "distinct (done @ ds) \<Longrightarrow> checkDots p ds (done @ ds) = Inr (done @ filter (eligible p) ds)"
proof (induction ds arbitrary: "done")
  case Nil
  then show ?case by simp
next
  case (Cons d ds)
  have r: "remove1 d (done @ d # ds) = done @ ds"
    using Cons.prems by (simp add: remove1_append)
  show ?case
  proof (cases "eligible p d")
    case True
    have "checkDots p ds ((done @ [d]) @ ds) = Inr ((done @ [d]) @ filter (eligible p) ds)"
      using Cons.prems by (intro Cons.IH) simp
    with True show ?thesis
      by (simp add: checkDot_eligible[OF assms])
  next
    case False
    have "checkDots p ds (done @ ds) = Inr (done @ filter (eligible p) ds)"
      using Cons.prems by (intro Cons.IH) simp
    with False r show ?thesis
      by (simp add: checkDot_eligible[OF assms])
  qed
qed

lemma getAllowedNextDots_filter:
  assumes "p \<noteq> []" "last p \<in> set allDots"
  shows "getAllowedNextDots p = Inr (filter (eligible p) allDots)"
  using checkDots_filter[OF assms, of "[]" allDots]
  by (simp add: getAllowedNextDots_def allDots_def)

section \<open>The enumerator as iterated expansion\<close>

lemma upto_allDots: "[0..8] = allDots"
  by (simp add: allDots_def upto_rec1)

lemma getNextOptions_extend:
  "usable p \<Longrightarrow> getNextOptions p = Inr (extendPattern p)"
  by (simp add: usable_def getNextOptions_def extendPattern_def getAllowedNextDots_filter)

lemma usable_extendPattern: "q \<in> set (extendPattern p) \<Longrightarrow> usable q"
  by (auto simp: extendPattern_def usable_def)

lemma usable_expand: "q \<in> set (expand ps) \<Longrightarrow> usable q"
  by (auto simp: expand_def dest: usable_extendPattern)

lemma extendBranches_expand:
  "list_all usable ps \<Longrightarrow> extendBranches ps = Inr (expand ps)"
  by (induction ps) (simp_all add: expand_def getNextOptions_extend)

lemma list_all_usable_expand: "list_all usable (expand ps)"
  by (simp add: list_all_iff usable_expand)

lemma evalRounds_Many:
  "0 < i \<Longrightarrow> list_all usable ps \<Longrightarrow> evalRounds i n (Many ps) = Inr (Many ((expand ^^ n) ps))"
proof (induction n arbitrary: i ps)
  case 0
  then show ?case by simp
next
  case (Suc n)
  have "evalRounds (Suc i) n (Many (expand ps)) = Inr (Many ((expand ^^ n) (expand ps)))"
    by (rule Suc.IH) (simp_all add: list_all_usable_expand)
  with Suc.prems show ?case
    by (simp add: evalRound_def extendBranches_expand funpow_swap1)
qed

lemma recursivelyEvaluate_eq:
  assumes "s \<in> set allDots"
  shows "recursivelyEvaluate s L = Inr (patternsOfLength s L)"
proof (cases "L \<le> 1")
  case True
  then show ?thesis by (simp add: recursivelyEvaluate_def patternsOfLength_def)
next
  case False
  then obtain k where k: "nat (L - 1) = Suc k"
    by (metis Suc_pred' diff_gt_0_iff_gt not_le zero_less_nat_eq)
  have u: "usable [s]" using assms by (simp add: usable_def)
  have e: "expand [[s]] = extendPattern [s]" by (simp add: expand_def)
  have "evalRounds (Suc 0) k (Many (extendPattern [s])) = Inr (Many ((expand ^^ k) (extendPattern [s])))"
    by (rule evalRounds_Many) (simp_all add: list_all_iff usable_extendPattern)
  with False k u e show ?thesis
    by (simp add: recursivelyEvaluate_def patternsOfLength_def evalRound_def
        getNextOptions_extend funpow_swap1)
qed

lemma findAllPatternsFrom_eq:
  "set starts \<subseteq> set allDots \<Longrightarrow>
   findAllPatternsFrom starts L = Inr (concat (map (\<lambda>s. elements (patternsOfLength s L)) starts))"
  by (induction starts) (simp_all add: recursivelyEvaluate_eq)

lemma findAllPatterns_eq:
  "findAllPatterns L = Inr (concat (map (\<lambda>s. elements (patternsOfLength s L)) allDots))"
  by (simp add: findAllPatterns_def upto_allDots findAllPatternsFrom_eq)

lemma findAllCombinationsFrom_eq:
  "findAllCombinationsFrom Ls =
   Inr (concat (map (\<lambda>L. concat (map (\<lambda>s. elements (patternsOfLength s L)) allDots)) Ls))"
  by (induction Ls) (simp_all add: findAllPatterns_eq)

lemma findAllCombinations_eq:
  "findAllCombinations maxLength =
   Inr (concat (map (\<lambda>L. concat (map (\<lambda>s. elements (patternsOfLength s L)) allDots)) [4..maxLength]))"
  by (simp add: findAllCombinations_def findAllCombinationsFrom_eq)

lemma in_expand:
  "q \<in> set (expand ps) \<longleftrightarrow> (\<exists>p\<in>set ps. \<exists>d\<in>set allDots. eligible p d \<and> q = p @ [d])"
  by (auto simp: expand_def extendPattern_def)

lemma in_funpow_expand:
  "q \<in> set ((expand ^^ k) ps) \<longleftrightarrow>
   (\<exists>p\<in>set ps. \<exists>ds. q = p @ ds \<and> length ds = k \<and> validFrom p ds)"
proof (induction k arbitrary: ps)
  case 0
  then show ?case by auto
next
  case (Suc k)
  have "q \<in> set ((expand ^^ Suc k) ps) \<longleftrightarrow> q \<in> set ((expand ^^ k) (expand ps))"
    by (simp add: funpow_swap1)
  also have "\<dots> \<longleftrightarrow> (\<exists>p'\<in>set (expand ps). \<exists>ds'. q = p' @ ds' \<and> length ds' = k \<and> validFrom p' ds')"
    by (rule Suc.IH)
  also have "\<dots> \<longleftrightarrow> (\<exists>p\<in>set ps. \<exists>ds. q = p @ ds \<and> length ds = Suc k \<and> validFrom p ds)"
    (is "?L \<longleftrightarrow> ?R")
  proof
    assume ?L
    then obtain p d ds' where h: "p \<in> set ps" "d \<in> set allDots" "eligible p d"
      "q = (p @ [d]) @ ds'" "length ds' = k" "validFrom (p @ [d]) ds'"
      by (auto simp: in_expand)
    then have "q = p @ (d # ds') \<and> length (d # ds') = Suc k \<and> validFrom p (d # ds')"
      by simp
    with h(1) show ?R by blast
  next
    assume ?R
    then obtain p ds where h: "p \<in> set ps" "q = p @ ds" "length ds = Suc k" "validFrom p ds"
      by blast
    then obtain d ds' where ds: "ds = d # ds'" by (cases ds) auto
    with h have "p @ [d] \<in> set (expand ps)" "q = (p @ [d]) @ ds'" "length ds' = k"
      "validFrom (p @ [d]) ds'"
      by (auto simp: in_expand)
    then show ?L by blast
  qed
  finally show ?case .
qed

text \<open>What a sequence of legal appends guarantees.\<close>

lemma eligible_fresh: "eligible p d \<Longrightarrow> d \<notin> set p"
  by (simp add: eligible_def split: if_splits)

lemma validFrom_distinct: "validFrom pre ds \<Longrightarrow> distinct pre \<Longrightarrow> distinct (pre @ ds)"
proof (induction ds arbitrary: pre)
  case Nil
  then show ?case by simp
next
  case (Cons d ds)
  then have "distinct ((pre @ [d]) @ ds)"
    by (intro Cons.IH) (auto dest: eligible_fresh)
  then show ?case by simp
qed

lemma validFrom_onGrid: "validFrom pre ds \<Longrightarrow> set ds \<subseteq> set allDots"
  by (induction ds arbitrary: pre) auto

lemma getMiddle_commute: "getMiddle a b = getMiddle b a"
  by (simp add: getMiddle_def min.commute max.commute)

lemma eligible_legalMove:
  assumes "pre \<noteq> []" "last pre \<in> set allDots" "eligible pre d"
  shows "legalMove pre (last pre) d"
proof -
  obtain adj lin where al: "getAdjacent (last pre) = Some adj" "getEndLinear (last pre) = Some lin"
    "set adj \<inter> set lin = {}"
    using adjacent_not_far[OF assms(2)] by blast
  with assms(3) show ?thesis
    by (auto simp: legalMove_def eligible_def getMiddle_commute[of d] split: if_splits)
qed

lemma validFrom_moves:
  assumes "validFrom pre ds" "pre \<noteq> []" "last pre \<in> set allDots"
    "pre @ ds = xs @ a # b # ys" "length pre \<le> Suc (length xs)"
  shows "legalMove (xs @ [a]) a b"
  using assms
proof (induction ds arbitrary: pre)
  case Nil
  then have "length (pre @ []) = length (xs @ a # b # ys)" by simp
  with Nil.prems(5) show ?case by simp
next
  case (Cons d ds)
  show ?case
  proof (cases "length pre = Suc (length xs)")
    case True
    with Cons.prems(4) have "pre = xs @ [a]" "d = b"
      by (auto simp: append_eq_append_conv2 append_eq_Cons_conv Cons_eq_append_conv)
    with Cons.prems(1,2,3) show ?thesis
      using eligible_legalMove[of pre d] by simp
  next
    case False
    with Cons.prems have "legalMove (xs @ [a]) a b"
      by (intro Cons.IH[of "pre @ [d]"]) auto
    then show ?thesis .
  qed
qed

section \<open>Properties of the legal-move rule\<close>

lemma middle_of_far:
  assumes "l \<in> set allDots" "getEndLinear l = Some lin" "d \<in> set lin"
  shows "\<exists>m. getMiddle d l = Some m \<and> m \<in> set allDots \<and> m \<notin> set lin \<and> m \<noteq> l"
  using onGrid_cases[OF assms(1)] assms(2,3)
  by (elim disjE) (auto simp: getEndLinear_def getMiddle_def allDots_def)

lemma eligible_unfold:
  assumes "getAdjacent (last p) = Some adj" "getEndLinear (last p) = Some lin"
  shows "eligible p d \<longleftrightarrow>
     d \<notin> set p \<and> (d \<in> set lin \<longrightarrow> isAlreadyVisited p (getMiddle d (last p)))"
  using assms by (auto simp: eligible_def)




text \<open>
  Claim C5: for a non-empty duplicate-free pattern of grid dots, the dots returned are the
  unvisited dots minus the dots of \<open>getEndLinear(last)\<close> whose middle \<open>getMiddle(last, d)\<close> is
  unvisited; in particular an unvisited dot in neither \<open>getAdjacent(last)\<close> nor
  \<open>getEndLinear(last)\<close> is always returned.
\<close>

theorem allowed_is_unvisited_minus_blocked:
  assumes "currentPattern \<noteq> []" "distinct currentPattern"
    "set currentPattern \<subseteq> set allDots"
  shows "\<exists>adj lin ds.
     getAdjacent (last currentPattern) = Some adj \<and>
     getEndLinear (last currentPattern) = Some lin \<and>
     getAllowedNextDots currentPattern = Inr ds \<and>
     set ds = (set allDots - set currentPattern) -
              {d \<in> set lin. \<not> isAlreadyVisited currentPattern (getMiddle (last currentPattern) d)} \<and>
     (\<forall>d \<in> set allDots - set currentPattern. d \<notin> set adj \<and> d \<notin> set lin \<longrightarrow> d \<in> set ds)"
proof -
  have l: "last currentPattern \<in> set allDots"
    using assms(1,3) last_in_set by blast
  obtain adj lin where al: "getAdjacent (last currentPattern) = Some adj"
    "getEndLinear (last currentPattern) = Some lin"
    using adjacent_not_far[OF l] by blast
  have g: "getAllowedNextDots currentPattern = Inr (filter (eligible currentPattern) allDots)"
    by (rule getAllowedNextDots_filter[OF assms(1) l])
  have s: "set (filter (eligible currentPattern) allDots) =
      (set allDots - set currentPattern) -
      {d \<in> set lin. \<not> isAlreadyVisited currentPattern (getMiddle (last currentPattern) d)}"
    by (auto simp: eligible_unfold[OF al] getMiddle_commute[of "last currentPattern"])
  have "\<forall>d \<in> set allDots - set currentPattern.
      d \<notin> set adj \<and> d \<notin> set lin \<longrightarrow> d \<in> set (filter (eligible currentPattern) allDots)"
    by (auto simp: eligible_unfold[OF al])
  with al g s show ?thesis by blast
qed

theorem allowed_is_unvisited_minus_blocked_witness:
  "\<exists>adj lin ds.
     getAdjacent (last [0, 3, 6]) = Some adj \<and>
     getEndLinear (last [0, 3, 6]) = Some lin \<and>
     getAllowedNextDots [0, 3, 6] = Inr ds \<and>
     set ds = (set allDots - set [0, 3, 6]) -
              {d \<in> set lin. \<not> isAlreadyVisited [0, 3, 6] (getMiddle (last [0, 3, 6]) d)} \<and>
     (\<forall>d \<in> set allDots - set [0, 3, 6]. d \<notin> set adj \<and> d \<notin> set lin \<longrightarrow> d \<in> set ds)"
  using allowed_is_unvisited_minus_blocked[of "[0, 3, 6]"] by (simp add: allDots_def)

text \<open>
  Claim C7: for a non-empty duplicate-free pattern of grid dots, \<open>getAllowedNextDots\<close>
  raises nothing and returns a duplicate-free list, which is empty only when (and in fact
  exactly when) the pattern holds all nine dots.
\<close>

theorem allowed_total_nonempty:
  assumes "currentPattern \<noteq> []" "distinct currentPattern"
    "set currentPattern \<subseteq> set allDots"
  shows "\<exists>ds. getAllowedNextDots currentPattern = Inr ds \<and> distinct ds \<and>
     (ds = [] \<longleftrightarrow> set currentPattern = set allDots)"
proof -
  have l: "last currentPattern \<in> set allDots"
    using assms(1,3) last_in_set by blast
  obtain adj lin where al: "getAdjacent (last currentPattern) = Some adj"
    "getEndLinear (last currentPattern) = Some lin"
    using adjacent_not_far[OF l] by blast
  let ?ds = "filter (eligible currentPattern) allDots"
  have g: "getAllowedNextDots currentPattern = Inr ?ds"
    by (rule getAllowedNextDots_filter[OF assms(1) l])
  have d: "distinct ?ds" by (simp add: allDots_def)
  have "?ds = [] \<longleftrightarrow> set currentPattern = set allDots"
  proof
    assume e: "?ds = []"
    have "set allDots \<subseteq> set currentPattern"
    proof
      fix x assume x: "x \<in> set allDots"
      show "x \<in> set currentPattern"
      proof (rule ccontr)
        assume nx: "x \<notin> set currentPattern"
        from e x have "\<not> eligible currentPattern x"
          by (auto simp: filter_empty_conv)
        with nx have xl: "x \<in> set lin"
          and nv: "\<not> isAlreadyVisited currentPattern (getMiddle x (last currentPattern))"
          by (auto simp: eligible_unfold[OF al])
        obtain m where m: "getMiddle x (last currentPattern) = Some m" "m \<in> set allDots"
          "m \<notin> set lin"
          using middle_of_far[OF l al(2) xl] by blast
        from nv m(1) have "m \<notin> set currentPattern" by (simp add: isAlreadyVisited_def)
        with m(3) have "eligible currentPattern m" by (simp add: eligible_unfold[OF al])
        with m(2) e show False by (auto simp: filter_empty_conv)
      qed
    qed
    with assms(3) show "set currentPattern = set allDots" by blast
  next
    assume "set currentPattern = set allDots"
    then show "?ds = []" by (auto simp: filter_empty_conv dest: eligible_fresh)
  qed
  with g d show ?thesis by blast
qed

theorem allowed_total_nonempty_witness:
  "\<exists>ds. getAllowedNextDots [0, 3, 6] = Inr ds \<and> distinct ds \<and>
     (ds = [] \<longleftrightarrow> set [0, 3, 6] = set allDots)"
  using allowed_total_nonempty[of "[0, 3, 6]"] by (simp add: allDots_def)

section \<open>The patterns of the final output\<close>

lemma in_elements_patternsOfLength:
  assumes "2 \<le> L"
  shows "x \<in> set (elements (patternsOfLength s L)) \<longleftrightarrow>
     (\<exists>ds. x = Pat (s # ds) \<and> int (length ds) = L - 1 \<and> validFrom [s] ds)"
proof -
  have e: "elements (patternsOfLength s L) = map Pat ((expand ^^ nat (L - 1)) [[s]])"
    using assms by (simp add: patternsOfLength_def)
  have n: "length ds = nat (L - 1) \<longleftrightarrow> int (length ds) = L - 1" for ds :: "int list"
    using assms by linarith
  show ?thesis
    unfolding e by (auto simp: in_funpow_expand n)
qed

lemma in_findAllCombinations:
  assumes "findAllCombinations maxLength = Inr out"
  shows "x \<in> set out \<longleftrightarrow>
     (\<exists>s ds. x = Pat (s # ds) \<and> s \<in> set allDots \<and> 3 \<le> length ds \<and>
        int (length ds) < maxLength \<and> validFrom [s] ds)"
    (is "?A \<longleftrightarrow> ?R")
proof -
  have out: "out = concat (map (\<lambda>L. concat (map (\<lambda>s. elements (patternsOfLength s L)) allDots))
      [4..maxLength])"
    using assms by (simp add: findAllCombinations_eq)
  have A: "?A \<longleftrightarrow>
     (\<exists>L. 4 \<le> L \<and> L \<le> maxLength \<and> (\<exists>s\<in>set allDots. x \<in> set (elements (patternsOfLength s L))))"
    unfolding out by auto
  show ?thesis
  proof
    assume ?A
    then obtain L s where h: "4 \<le> L" "L \<le> maxLength" "s \<in> set allDots"
      "x \<in> set (elements (patternsOfLength s L))"
      unfolding A by blast
    from h(1) have "2 \<le> L" by simp
    from h(4) obtain ds where d: "x = Pat (s # ds)" "int (length ds) = L - 1" "validFrom [s] ds"
      unfolding in_elements_patternsOfLength[OF \<open>2 \<le> L\<close>] by blast
    from d(2) h(1,2) have "3 \<le> length ds" "int (length ds) < maxLength" by linarith+
    with h(3) d show ?R by blast
  next
    assume ?R
    then obtain s ds where h: "x = Pat (s # ds)" "s \<in> set allDots" "3 \<le> length ds"
      "int (length ds) < maxLength" "validFrom [s] ds"
      by blast
    let ?L = "int (length ds) + 1"
    have b: "4 \<le> ?L" "?L \<le> maxLength" "2 \<le> ?L"
      using h(3,4) by linarith+
    have "x \<in> set (elements (patternsOfLength s ?L))"
      unfolding in_elements_patternsOfLength[OF b(3)] using h(1,5) by simp
    with b(1,2) h(2) show ?A unfolding A by blast
  qed
qed

text \<open>
  The production run \<open>findAllCombinations(9)\<close> emits the pattern \<open>0, 5, 4, 3\<close>, whose first
  step goes from \<open>0\<close> to \<open>5\<close>: not adjacent and not far-collinear, so claim C2 fails on it.
\<close>

theorem knight_move_emitted_counterexample:
  "\<not> isl (findAllCombinations 9) \<and>
   Pat [0, 5, 4, 3] \<in> set (projr (findAllCombinations 9)) \<and>
   getAdjacent 0 = Some [1, 3, 4] \<and> getEndLinear 0 = Some [2, 6, 8] \<and>
   5 \<notin> set [1, 3, 4 :: int] \<and> 5 \<notin> set [2, 6, 8 :: int]"
proof -
  obtain out where out: "findAllCombinations 9 = Inr out"
    by (simp add: findAllCombinations_eq)
  have "validFrom [0] [5, 4, 3]"
    by (simp add: eligible_def topology_defs)
  then have "Pat [0, 5, 4, 3] \<in> set out"
    unfolding in_findAllCombinations[OF out] by (simp add: allDots_def)
  with out show ?thesis
    by (simp add: getAdjacent_def getEndLinear_def)
qed

text \<open>
  Claim C2, amended: \<open>findAllCombinations\<close> raises nothing, and every element of its result
  is a pattern of pairwise distinct grid dots in which every consecutive pair \<open>(a, b)\<close> is
  such that \<open>b\<close> is in \<open>getAdjacent(a)\<close>, or \<open>b\<close> is in \<open>getEndLinear(a)\<close> and the middle of
  \<open>a\<close> and \<open>b\<close> occurs in the pattern before \<open>b\<close>, or \<open>b\<close> is in neither list of \<open>a\<close>.
\<close>

theorem emitted_patterns_legal:
  "\<exists>out. findAllCombinations maxLength = Inr out \<and>
     (\<forall>x\<in>set out. \<exists>p. x = Pat p \<and> distinct p \<and> set p \<subseteq> set allDots \<and>
        (\<forall>xs a b ys. p = xs @ a # b # ys \<longrightarrow>
           (\<exists>adj lin. getAdjacent a = Some adj \<and> getEndLinear a = Some lin \<and>
              (b \<in> set adj \<or>
               (b \<in> set lin \<and> isAlreadyVisited (xs @ [a]) (getMiddle a b)) \<or>
               (b \<notin> set adj \<and> b \<notin> set lin)))))"
proof -
  obtain out where out: "findAllCombinations maxLength = Inr out"
    by (simp add: findAllCombinations_eq)
  have "\<exists>p. x = Pat p \<and> distinct p \<and> set p \<subseteq> set allDots \<and>
        (\<forall>xs a b ys. p = xs @ a # b # ys \<longrightarrow>
           (\<exists>adj lin. getAdjacent a = Some adj \<and> getEndLinear a = Some lin \<and>
              (b \<in> set adj \<or>
               (b \<in> set lin \<and> isAlreadyVisited (xs @ [a]) (getMiddle a b)) \<or>
               (b \<notin> set adj \<and> b \<notin> set lin))))" if "x \<in> set out" for x
  proof -
    from that obtain s ds where h: "x = Pat (s # ds)" "s \<in> set allDots" "validFrom [s] ds"
      unfolding in_findAllCombinations[OF out] by blast
    have d: "distinct (s # ds)"
      using validFrom_distinct[OF h(3)] by simp
    have g: "set (s # ds) \<subseteq> set allDots"
      using validFrom_onGrid[OF h(3)] h(2) by simp
    have m: "legalMove (xs @ [a]) a b" if "s # ds = xs @ a # b # ys" for xs a b ys
      using validFrom_moves[OF h(3), of xs a b ys] h(2) that by simp
    have "\<exists>adj lin. getAdjacent a = Some adj \<and> getEndLinear a = Some lin \<and>
              (b \<in> set adj \<or>
               (b \<in> set lin \<and> isAlreadyVisited (xs @ [a]) (getMiddle a b)) \<or>
               (b \<notin> set adj \<and> b \<notin> set lin))" if "s # ds = xs @ a # b # ys" for xs a b ys
      using m[OF that] by (auto simp: legalMove_def split: option.splits)
    with h(1) d g show ?thesis by blast
  qed
  with out show ?thesis by blast
qed

theorem emitted_patterns_legal_witness:
  "\<exists>out. findAllCombinations 4 = Inr out \<and> Pat [0, 5, 4, 3] \<in> set out \<and>
     distinct [0, 5, 4, 3 :: int] \<and>
     (\<exists>adj lin. getAdjacent 0 = Some adj \<and> getEndLinear 0 = Some lin \<and>
              (5 \<in> set adj \<or>
               (5 \<in> set lin \<and> isAlreadyVisited ([] @ [0]) (getMiddle 0 5)) \<or>
               (5 \<notin> set adj \<and> 5 \<notin> set lin)))"
proof -
  obtain out where out: "findAllCombinations 4 = Inr out"
    and all: "\<forall>x\<in>set out. \<exists>p. x = Pat p \<and> distinct p \<and> set p \<subseteq> set allDots \<and>
        (\<forall>xs a b ys. p = xs @ a # b # ys \<longrightarrow>
           (\<exists>adj lin. getAdjacent a = Some adj \<and> getEndLinear a = Some lin \<and>
              (b \<in> set adj \<or>
               (b \<in> set lin \<and> isAlreadyVisited (xs @ [a]) (getMiddle a b)) \<or>
               (b \<notin> set adj \<and> b \<notin> set lin))))"
    using emitted_patterns_legal[of 4] by blast
  have "validFrom [0] [5, 4, 3]"
    by (simp add: eligible_def topology_defs)
  then have mem: "Pat [0, 5, 4, 3] \<in> set out"
    unfolding in_findAllCombinations[OF out] by (simp add: allDots_def)
  from all mem have "\<forall>xs a b ys. [0, 5, 4, 3] = xs @ a # b # ys \<longrightarrow>
           (\<exists>adj lin. getAdjacent a = Some adj \<and> getEndLinear a = Some lin \<and>
              (b \<in> set adj \<or>
               (b \<in> set lin \<and> isAlreadyVisited (xs @ [a]) (getMiddle a b)) \<or>
               (b \<notin> set adj \<and> b \<notin> set lin)))"
    by fastforce
  then have "\<exists>adj lin. getAdjacent 0 = Some adj \<and> getEndLinear 0 = Some lin \<and>
              (5 \<in> set adj \<or>
               (5 \<in> set lin \<and> isAlreadyVisited ([] @ [0]) (getMiddle 0 5)) \<or>
               (5 \<notin> set adj \<and> 5 \<notin> set lin))"
    by (metis append_Nil)
  with out mem show ?thesis by simp
qed

section \<open>The topology tables\<close>

text \<open>
  Claim C6 on the code: the list \<open>getAdjacent(4)\<close> has eight entries but names the dot \<open>3\<close>
  twice and the dot \<open>2\<close> never, so the centre has seven adjacent dots, not eight, while \<open>4\<close>
  is adjacent to \<open>2\<close> in the entry of \<open>2\<close>.
\<close>

theorem getAdjacent_4_misses_2:
  "getAdjacent 4 = Some [1, 3, 5, 7, 0, 3, 6, 8] \<and>
   2 \<notin> set [1, 3, 5, 7, 0, 3, 6, 8 :: int] \<and>
   card (set [1, 3, 5, 7, 0, 3, 6, 8 :: int]) = 7 \<and>
   getAdjacent 2 = Some [1, 5, 4] \<and> 4 \<in> set [1, 5, 4 :: int]"
proof -
  have "card (set [1, 3, 5, 7, 0, 3, 6, 8 :: int]) = length (remdups [1, 3, 5, 7, 0, 3, 6, 8 :: int])"
    by (rule List.card_set)
  also have "\<dots> = 7" by simp
  finally have "card (set [1, 3, 5, 7, 0, 3, 6, 8 :: int]) = 7" .
  then show ?thesis by (simp add: getAdjacent_def)
qed

text \<open>
  The dots \<open>0\<close> and \<open>1\<close> are not far-collinear, and \<open>getMiddle(0, 1)\<close> returns the value
  \<^verbatim>\<open>None\<close>, which the caller then looks up in the pattern without any exception: nothing
  fails loudly, against claim C8.
\<close>

theorem getMiddle_not_collinear_counterexample:
  "getEndLinear 0 = Some [2, 6, 8] \<and> 1 \<notin> set [2, 6, 8 :: int] \<and> getMiddle 0 1 = None \<and>
   isAlreadyVisited [0, 1] (getMiddle 0 1) = False"
  by (simp add: getEndLinear_def getMiddle_def isAlreadyVisited_def)

lemma getMiddle_Some_iff:
  "getMiddle a b = Some m \<longleftrightarrow>
     (min a b, max a b, m) \<in> {(0, 2, 1), (0, 6, 3), (0, 8, 4), (1, 7, 4), (2, 6, 4), (2, 8, 5),
        (3, 5, 4), (6, 8, 7)}"
  by (auto simp: getMiddle_def Let_def)

lemma getEndLinear_mem_iff:
  "(\<exists>lin. getEndLinear a = Some lin \<and> b \<in> set lin) \<longleftrightarrow>
     (min a b, max a b) \<in> {(0, 2), (0, 6), (0, 8), (1, 7), (2, 6), (2, 8), (3, 5), (6, 8)}"
  by (auto simp: getEndLinear_def min_def max_def split: if_splits)

text \<open>
  Claim C8, amended: \<open>getMiddle\<close> never raises; it is symmetric in its arguments, returns a
  dot exactly for the pairs with \<open>b\<close> in \<open>getEndLinear(a)\<close> and the value \<^verbatim>\<open>None\<close> for every
  other pair, and the dot it returns is the grid dot halfway between the two (in the
  row-by-row numbering, half their sum); the eight pairs are listed with their middles.
\<close>

theorem getMiddle_far_collinear:
  "getMiddle a b = getMiddle b a \<and>
   (getMiddle a b \<noteq> None \<longleftrightarrow> (\<exists>lin. getEndLinear a = Some lin \<and> b \<in> set lin)) \<and>
   (\<forall>m. getMiddle a b = Some m \<longrightarrow> m \<in> set allDots \<and> 2 * m = a + b) \<and>
   getMiddle 0 2 = Some 1 \<and> getMiddle 0 6 = Some 3 \<and> getMiddle 0 8 = Some 4 \<and>
   getMiddle 1 7 = Some 4 \<and> getMiddle 2 6 = Some 4 \<and> getMiddle 2 8 = Some 5 \<and>
   getMiddle 3 5 = Some 4 \<and> getMiddle 6 8 = Some 7"
proof -
  have 1: "getMiddle a b = getMiddle b a" by (rule getMiddle_commute)
  have 2: "getMiddle a b \<noteq> None \<longleftrightarrow> (\<exists>lin. getEndLinear a = Some lin \<and> b \<in> set lin)"
  proof -
    have "getMiddle a b \<noteq> None \<longleftrightarrow> (\<exists>m. getMiddle a b = Some m)" by auto
    also have "\<dots> \<longleftrightarrow> (min a b, max a b) \<in>
        {(0, 2), (0, 6), (0, 8), (1, 7), (2, 6), (2, 8), (3, 5), (6, 8)}"
      unfolding getMiddle_Some_iff by auto
    finally show ?thesis unfolding getEndLinear_mem_iff .
  qed
  have 3: "\<forall>m. getMiddle a b = Some m \<longrightarrow> m \<in> set allDots \<and> 2 * m = a + b"
    unfolding getMiddle_Some_iff by (auto simp: allDots_def min_def max_def split: if_splits)
  have 4: "getMiddle 0 2 = Some 1 \<and> getMiddle 0 6 = Some 3 \<and> getMiddle 0 8 = Some 4 \<and>
   getMiddle 1 7 = Some 4 \<and> getMiddle 2 6 = Some 4 \<and> getMiddle 2 8 = Some 5 \<and>
   getMiddle 3 5 = Some 4 \<and> getMiddle 6 8 = Some 7"
    by (simp add: getMiddle_def)
  from 1 2 3 4 show ?thesis by blast
qed

theorem getMiddle_far_collinear_witness:
  "getMiddle 8 2 = getMiddle 2 8 \<and> getMiddle 8 2 = Some 5 \<and>
   (\<exists>lin. getEndLinear 8 = Some lin \<and> 2 \<in> set lin) \<and> 5 \<in> set allDots \<and> 2 * 5 = (8 + 2 :: int)"
  using getMiddle_far_collinear[of 8 2] by (simp add: getMiddle_def)

section \<open>Target length one\<close>

text \<open>
  Claim C10 on the code: for the target length \<open>1\<close> the loop runs no round and the function
  returns the variable as it was initialised, the pattern \<open>[start]\<close> itself (a list whose
  only element is the integer \<open>start\<close>), and not a list holding that pattern.
\<close>

theorem recursivelyEvaluate_length_1:
  "recursivelyEvaluate start 1 = Inr (Single [start]) \<and>
   Single [start] \<noteq> Many [[start]] \<and>
   elements (Single [start]) = [Dot start] \<and> [Dot start] \<noteq> [Pat [start]]"
  by (simp add: recursivelyEvaluate_def)

section \<open>Symmetry\<close>

lemma rotate_values:
  "rotate 0 = 2" "rotate 1 = 5" "rotate 2 = 8" "rotate 3 = 1" "rotate 4 = 4"
  "rotate 5 = 7" "rotate 6 = 0" "rotate 7 = 3" "rotate 8 = 6"
  by (simp_all add: rotate_def)

lemma mirror_values:
  "mirror 0 = 2" "mirror 1 = 1" "mirror 2 = 0" "mirror 3 = 5" "mirror 4 = 4"
  "mirror 5 = 3" "mirror 6 = 8" "mirror 7 = 7" "mirror 8 = 6"
  by (simp_all add: mirror_def)

lemma farOf_values:
  "farOf 0 = [2, 6, 8]" "farOf 1 = [7]" "farOf 2 = [0, 8, 6]" "farOf 3 = [5]" "farOf 4 = []"
  "farOf 5 = [3]" "farOf 6 = [0, 8, 2]" "farOf 7 = [1]" "farOf 8 = [6, 2, 0]"
  by (simp_all add: farOf_def getEndLinear_def)

lemma distinct_allDots: "distinct allDots"
  by (simp add: allDots_def)

lemma inj_on_allDots_iff:
  "inj_on f (set allDots) \<longleftrightarrow> distinct (map f allDots)"
  unfolding distinct_map using distinct_allDots by blast

lemma gridSymmetry_rotate: "gridSymmetry rotate"
  unfolding gridSymmetry_def inj_on_allDots_iff
  by (simp add: allDots_def rotate_values farOf_values getMiddle_def)

lemma gridSymmetry_mirror: "gridSymmetry mirror"
  unfolding gridSymmetry_def inj_on_allDots_iff
  by (simp add: allDots_def mirror_values farOf_values getMiddle_def)

lemma gridSymmetry_id: "gridSymmetry id"
  by (simp add: gridSymmetry_def option.map_id)

lemma gridSymmetry_comp:
  assumes "gridSymmetry f" "gridSymmetry g"
  shows "gridSymmetry (f \<circ> g)"
proof -
  have f: "\<And>d. d \<in> set allDots \<Longrightarrow> f d \<in> set allDots" "inj_on f (set allDots)"
    "\<And>l d. l \<in> set allDots \<Longrightarrow> d \<in> set allDots \<Longrightarrow>
       (f d \<in> set (farOf (f l)) \<longleftrightarrow> d \<in> set (farOf l))"
    "\<And>l d. l \<in> set allDots \<Longrightarrow> d \<in> set allDots \<Longrightarrow> d \<in> set (farOf l) \<Longrightarrow>
       getMiddle (f d) (f l) = map_option f (getMiddle d l)"
    using assms(1) by (auto simp: gridSymmetry_def)
  have g: "\<And>d. d \<in> set allDots \<Longrightarrow> g d \<in> set allDots" "inj_on g (set allDots)"
    "\<And>l d. l \<in> set allDots \<Longrightarrow> d \<in> set allDots \<Longrightarrow>
       (g d \<in> set (farOf (g l)) \<longleftrightarrow> d \<in> set (farOf l))"
    "\<And>l d. l \<in> set allDots \<Longrightarrow> d \<in> set allDots \<Longrightarrow> d \<in> set (farOf l) \<Longrightarrow>
       getMiddle (g d) (g l) = map_option g (getMiddle d l)"
    using assms(2) by (auto simp: gridSymmetry_def)
  have i: "inj_on (f \<circ> g) (set allDots)"
    by (rule comp_inj_on[OF g(2)]) (rule inj_on_subset[OF f(2)], use g(1) in blast)
  show ?thesis
    unfolding gridSymmetry_def
    using i f(1,3,4) g(1,3,4) by (simp add: option.map_comp)
qed

lemma gridSymmetry_dihedral: "f \<in> set dihedral \<Longrightarrow> gridSymmetry f"
  unfolding dihedral_def
  by (auto intro!: gridSymmetry_comp gridSymmetry_rotate gridSymmetry_mirror gridSymmetry_id)

lemma farOf_eq: "getEndLinear l = Some lin \<Longrightarrow> farOf l = lin"
  by (simp add: farOf_def)

lemma eligible_farOf:
  assumes "last p \<in> set allDots"
  shows "eligible p d \<longleftrightarrow>
     d \<notin> set p \<and> (d \<in> set (farOf (last p)) \<longrightarrow> isAlreadyVisited p (getMiddle d (last p)))"
proof -
  obtain adj lin where al: "getAdjacent (last p) = Some adj" "getEndLinear (last p) = Some lin"
    using adjacent_not_far[OF assms] by blast
  show ?thesis
    by (simp add: eligible_unfold[OF al] farOf_eq[OF al(2)])
qed

lemma eligible_relabel:
  assumes s: "gridSymmetry f" and p: "p \<noteq> []" "set p \<subseteq> set allDots" and d: "d \<in> set allDots"
    and e: "eligible p d"
  shows "eligible (map f p) (f d)"
proof -
  have l: "last p \<in> set allDots" using p last_in_set by blast
  have fl: "f (last p) \<in> set allDots" using s l by (simp add: gridSymmetry_def)
  have inj: "inj_on f (set allDots)" using s by (simp add: gridSymmetry_def)
  have lm: "last (map f p) = f (last p)" using p(1) by (simp add: last_map)
  from e have nd: "d \<notin> set p"
    and vis: "d \<in> set (farOf (last p)) \<Longrightarrow> isAlreadyVisited p (getMiddle d (last p))"
    by (simp_all add: eligible_farOf[OF l])
  have 1: "f d \<notin> set (map f p)"
  proof
    assume "f d \<in> set (map f p)"
    then obtain x where x: "x \<in> set p" "f d = f x" by auto
    with inj d p(2) have "d = x" by (meson inj_onD subsetD)
    with x(1) nd show False by simp
  qed
  have 2: "isAlreadyVisited (map f p) (getMiddle (f d) (f (last p)))"
    if far: "f d \<in> set (farOf (f (last p)))"
  proof -
    from far s l d have fd: "d \<in> set (farOf (last p))"
      by (simp add: gridSymmetry_def)
    with s l d have m: "getMiddle (f d) (f (last p)) = map_option f (getMiddle d (last p))"
      by (simp add: gridSymmetry_def)
    from vis[OF fd] obtain m' where "getMiddle d (last p) = Some m'" "m' \<in> set p"
      by (auto simp: isAlreadyVisited_def split: option.splits)
    then show ?thesis by (simp add: m isAlreadyVisited_def)
  qed
  have "last (map f p) \<in> set allDots" using fl lm by simp
  from eligible_farOf[OF this] 1 2 show ?thesis by (simp add: lm)
qed

lemma validFrom_relabel:
  assumes "gridSymmetry f"
  shows "validFrom pre ds \<Longrightarrow> pre \<noteq> [] \<Longrightarrow> set pre \<subseteq> set allDots \<Longrightarrow>
     validFrom (map f pre) (map f ds)"
proof (induction ds arbitrary: pre)
  case Nil
  then show ?case by simp
next
  case (Cons d ds)
  from Cons.prems have d: "d \<in> set allDots" "eligible pre d" "validFrom (pre @ [d]) ds"
    by simp_all
  have "validFrom (map f (pre @ [d])) (map f ds)"
    using d(1,3) Cons.prems(3) by (intro Cons.IH) simp_all
  moreover have "f d \<in> set allDots" using assms d(1) by (simp add: gridSymmetry_def)
  moreover have "eligible (map f pre) (f d)"
    by (rule eligible_relabel[OF assms Cons.prems(2,3) d(1,2)])
  ultimately show ?case by simp
qed

lemma dihedral_eight:
  "length dihedral = 8 \<and> distinct (map (\<lambda>f. map f allDots) dihedral)"
  by (simp add: dihedral_def allDots_def rotate_values mirror_values)

lemma findAllPatterns_short:
  "L \<le> 1 \<Longrightarrow> findAllPatterns L = Inr (map Dot allDots)"
  by (simp add: findAllPatterns_eq patternsOfLength_def allDots_def)

lemma in_findAllPatterns:
  assumes "findAllPatterns L = Inr out" "2 \<le> L"
  shows "x \<in> set out \<longleftrightarrow>
     (\<exists>s ds. x = Pat (s # ds) \<and> s \<in> set allDots \<and> int (length ds) = L - 1 \<and> validFrom [s] ds)"
proof -
  have "out = concat (map (\<lambda>s. elements (patternsOfLength s L)) allDots)"
    using assms(1) by (simp add: findAllPatterns_eq)
  then have "x \<in> set out \<longleftrightarrow> (\<exists>s\<in>set allDots. x \<in> set (elements (patternsOfLength s L)))"
    by auto
  then show ?thesis
    unfolding in_elements_patternsOfLength[OF assms(2)] by blast
qed

lemma relabel_inj_on:
  assumes "inj_on f (set allDots)"
    and "\<And>x. x \<in> A \<Longrightarrow> (\<exists>d\<in>set allDots. x = Dot d) \<or> (\<exists>p. set p \<subseteq> set allDots \<and> x = Pat p)"
  shows "inj_on (relabel f) A"
proof (rule inj_onI)
  fix x y assume x: "x \<in> A" and y: "y \<in> A" and e: "relabel f x = relabel f y"
  show "x = y"
  proof (cases x)
    case (Dot d)
    with e obtain d' where d': "y = Dot d'" "f d = f d'" by (cases y) auto
    from assms(2)[OF x] Dot have "d \<in> set allDots" by auto
    moreover from assms(2)[OF y] d'(1) have "d' \<in> set allDots" by auto
    ultimately show ?thesis using assms(1) d' Dot by (auto dest: inj_onD)
  next
    case (Pat p)
    with e obtain p' where p': "y = Pat p'" "map f p = map f p'" by (cases y) auto
    from assms(2)[OF x] Pat have sp: "set p \<subseteq> set allDots" by auto
    from assms(2)[OF y] p'(1) have sp': "set p' \<subseteq> set allDots" by auto
    have "inj_on f (set p \<union> set p')"
      by (rule inj_on_subset[OF assms(1)]) (use sp sp' in blast)
    then have "p = p'" using p'(2) by (simp add: inj_on_map_eq_map)
    with Pat p'(1) show ?thesis by simp
  qed
qed

text \<open>
  Claim C9: for each of the eight symmetries of the grid and every target length,
  \<open>findAllPatterns\<close> raises nothing and relabeling every element of its result gives the
  same set of elements again; so a relabeled valid pattern is again valid.
\<close>

theorem findAllPatterns_symmetric:
  assumes "f \<in> set dihedral"
  shows "\<exists>out. findAllPatterns targetLength = Inr out \<and> relabel f ` set out = set out"
proof -
  have s: "gridSymmetry f" by (rule gridSymmetry_dihedral[OF assms])
  then have inj: "inj_on f (set allDots)" and cl: "\<And>d. d \<in> set allDots \<Longrightarrow> f d \<in> set allDots"
    by (simp_all add: gridSymmetry_def)
  obtain out where out: "findAllPatterns targetLength = Inr out"
    by (simp add: findAllPatterns_eq)
  have shape: "(\<exists>d\<in>set allDots. x = Dot d) \<or> (\<exists>p. set p \<subseteq> set allDots \<and> x = Pat p)"
    and closed: "relabel f x \<in> set out" if x: "x \<in> set out" for x
  proof -
    show "(\<exists>d\<in>set allDots. x = Dot d) \<or> (\<exists>p. set p \<subseteq> set allDots \<and> x = Pat p)"
    proof (cases "targetLength \<le> 1")
      case True
      with out x show ?thesis by (auto simp: findAllPatterns_short)
    next
      case False
      then have "2 \<le> targetLength" by simp
      from x obtain s' ds where h: "x = Pat (s' # ds)" "s' \<in> set allDots" "validFrom [s'] ds"
        unfolding in_findAllPatterns[OF out \<open>2 \<le> targetLength\<close>] by blast
      with validFrom_onGrid[OF h(3)] show ?thesis by auto
    qed
    show "relabel f x \<in> set out"
    proof (cases "targetLength \<le> 1")
      case True
      with out x cl show ?thesis by (auto simp: findAllPatterns_short)
    next
      case False
      then have L: "2 \<le> targetLength" by simp
      from x obtain s' ds where h: "x = Pat (s' # ds)" "s' \<in> set allDots"
        "int (length ds) = targetLength - 1" "validFrom [s'] ds"
        unfolding in_findAllPatterns[OF out L] by blast
      have "validFrom (map f [s']) (map f ds)"
        by (rule validFrom_relabel[OF s h(4)]) (use h(2) in simp_all)
      then have "relabel f x = Pat (f s' # map f ds) \<and> f s' \<in> set allDots \<and>
          int (length (map f ds)) = targetLength - 1 \<and> validFrom [f s'] (map f ds)"
        using h cl by simp
      then show ?thesis unfolding in_findAllPatterns[OF out L] by blast
    qed
  qed
  have "inj_on (relabel f) (set out)"
    by (rule relabel_inj_on[OF inj shape])
  moreover have "relabel f ` set out \<subseteq> set out" using closed by blast
  ultimately have "relabel f ` set out = set out"
    by (intro endo_inj_surj) simp_all
  with out show ?thesis by blast
qed

theorem findAllPatterns_symmetric_witness:
  "rotate \<in> set dihedral \<and>
   (\<exists>out. findAllPatterns 4 = Inr out \<and> relabel rotate ` set out = set out)"
  using findAllPatterns_symmetric[of rotate 4] by (simp add: dihedral_def)

end
